theory Spec2Isabelle
  imports Complex_Main "HOL-Library.Word"
begin

unbundle bit_operations_syntax

section \<open>Data model of \<open>BitVector\<close> (src/BitVector.h)\<close>

text \<open>
  \<open>block_type\<close> and \<open>size_type\<close> are both \<open>size_t\<close>; the embedding fixes the 64-bit
  platform, so both are 64-bit words whose arithmetic wraps around.
\<close>

type_synonym block_type = "64 word"
type_synonym size_type = "64 word"

text \<open>The two data members of the class, \<open>std::vector<block_type> bits_\<close> and
  \<open>size_type num_bits_\<close>; the fields drop the trailing underscore, which a constant
  name cannot end with.\<close>

record BitVector =
  bits :: "block_type list"
  num_bits :: size_type

text \<open>
  Modelled from the spec: \<open>bits_per_block\<close> is declared in BitVector.h as a static member
  (\<open>static block_type bits_per_block\<close>), its initialiser lives in BitVector.cc, which is
  not part of the sources. The spec makes it the fixed width of a storage block and pins
  the 64-bit block width.
\<close>

definition bits_per_block :: block_type where
  "bits_per_block = 64"

text \<open>
  Modelled from the spec: \<open>npos\<close> is declared in BitVector.h (\<open>static size_type npos\<close>)
  and initialised in BitVector.cc. The spec calls it the reserved "not found" index that
  no search may wrap past: the largest \<open>size_type\<close> value.
\<close>

definition npos :: size_type where
  "npos = - 1"

subsection \<open>Addressing arithmetic (BitVector.h, private static members)\<close>

definition block_index :: "size_type \<Rightarrow> size_type" where
  "block_index i = i div bits_per_block"

definition bit_index :: "size_type \<Rightarrow> block_type" where
  "bit_index i = i mod bits_per_block"

definition bit_mask :: "size_type \<Rightarrow> block_type" where
  "bit_mask i = push_bit (unat (bit_index i)) (1 :: block_type)"

text \<open>\<open>bits / bits_per_block + static_cast<size_type>(bits % bits_per_block != 0)\<close>;
  the parameter \<open>bits\<close> is written \<open>nbits\<close>, apart from the record field.\<close>

definition bits_to_blocks :: "size_type \<Rightarrow> size_type" where
  "bits_to_blocks nbits =
     nbits div bits_per_block + (if nbits mod bits_per_block \<noteq> 0 then 1 else 0)"

subsection \<open>Construction (BitVector.h, lines 45-65)\<close>

text \<open>The constructor from a block range inserts the range into the empty block vector
  and sets \<open>num_bits_ = bits_.size() * bits_per_block\<close>.\<close>

definition BitVector_from_blocks :: "block_type list \<Rightarrow> BitVector" where
  "BitVector_from_blocks xs =
     \<lparr>bits = xs, num_bits = of_nat (length xs) * bits_per_block\<rparr>"

text \<open>
  Modelled from the spec: the default constructor is declared in BitVector.h
  ("Default-constructs an empty bit vector"), its body is in BitVector.cc, which is not
  part of the sources. The spec: "Default: empty (\<open>length = 0\<close>, no blocks)".
\<close>

definition BitVector_default :: BitVector where
  "BitVector_default = \<lparr>bits = [], num_bits = 0\<rparr>"

subsection \<open>The excess of the final block\<close>

text \<open>
  Modelled from the spec: \<open>extra_bits\<close> is declared in BitVector.h and defined in
  BitVector.cc, which is not part of the sources. The spec gives it as
  \<open>(bits_per_block - length % bits_per_block) % bits_per_block\<close>, the number of unused high
  bits of the final block.
\<close>

definition extra_bits :: "BitVector \<Rightarrow> block_type" where
  "extra_bits v = (bits_per_block - num_bits v mod bits_per_block) mod bits_per_block"

subsection \<open>Bulk block append (BitVector.h, lines 112-137)\<close>

text \<open>
  The template reads the last block with \<open>bits_.back()\<close> and shifts blocks by counts
  computed at run time. C++ leaves both undefined in the cases below, so the embedding
  returns an error value there instead of a vector:
  \<^item> \<open>back()\<close> on an empty \<open>std::vector\<close>;
  \<^item> \<open><<\<close> or \<open>>>\<close> of a block by a count that is not smaller than the width of
    \<open>block_type\<close>.
\<close>

datatype error = BackOfEmptyVector | ShiftCountOutOfRange

definition shl :: "block_type \<Rightarrow> block_type \<Rightarrow> error + block_type" where
  "shl x n = (if n < bits_per_block then Inr (push_bit (unat n) x)
              else Inl ShiftCountOutOfRange)"

definition shr :: "block_type \<Rightarrow> block_type \<Rightarrow> error + block_type" where
  "shr x n = (if n < bits_per_block then Inr (drop_bit (unat n) x)
              else Inl ShiftCountOutOfRange)"

text \<open>
  The \<open>do { ... } while (first != last)\<close> loop. The first argument is \<open>bits_\<close>, the
  third the block \<open>*first\<close> and the fourth the blocks after it up to \<open>last\<close>. One round
  computes \<open>b = *first++ >> (bits_per_block - excess)\<close> and pushes
  \<open>b | (first == last ? 0 : *first << excess)\<close>.
\<close>

fun append_loop ::
  "block_type list \<Rightarrow> block_type \<Rightarrow> block_type \<Rightarrow> block_type list \<Rightarrow>
     error + block_type list" where
  "append_loop bs excess x rest =
     (case shr x (bits_per_block - excess) of
        Inl e \<Rightarrow> Inl e
      | Inr b \<Rightarrow>
          (case rest of
             [] \<Rightarrow> Inr (bs @ [b OR 0])
           | y # ys \<Rightarrow>
               (case shl y excess of
                  Inl e \<Rightarrow> Inl e
                | Inr s \<Rightarrow> append_loop (bs @ [b OR s]) excess y ys)))"

text \<open>
  The branch taken under \<open>if (excess == 0)\<close>:
  \<open>bits_.back() |= (*first << excess)\<close>, then the loop. The right operand of \<open>|=\<close> is
  evaluated before \<open>back()\<close> is called.
\<close>

definition append_merge ::
  "block_type list \<Rightarrow> block_type \<Rightarrow> block_type \<Rightarrow> block_type list \<Rightarrow>
     error + block_type list" where
  "append_merge bs excess x rest =
     (case shl x excess of
        Inl e \<Rightarrow> Inl e
      | Inr s \<Rightarrow>
          (if bs = [] then Inl BackOfEmptyVector
           else append_loop (butlast bs @ [last bs OR s]) excess x rest))"

text \<open>The \<open>else\<close> branch: \<open>bits_.insert(bits_.end(), first, last)\<close>.\<close>

definition append_insert :: "block_type list \<Rightarrow> block_type list \<Rightarrow> block_type list" where
  "append_insert bs xs = bs @ xs"

text \<open>
  \<open>append(first, last)\<close>, with the range given as the list of its blocks; it is named
  \<open>append_range\<close>, apart from the list append of HOL and from the overload
  \<open>append(block_type)\<close>. The empty range returns at once. \<open>delta\<close> is
  \<open>std::distance(first, last)\<close>, converted to \<open>size_type\<close> in
  \<open>num_bits_ += bits_per_block * delta\<close>. \<open>bits_.reserve\<close> changes the capacity only.
\<close>

definition append_range :: "BitVector \<Rightarrow> block_type list \<Rightarrow> error + BitVector" where
  "append_range v xs =
     (case xs of
        [] \<Rightarrow> Inr v
      | x # rest \<Rightarrow>
          let excess = extra_bits v;
              delta = (of_nat (length xs) :: size_type)
          in case (if excess = 0 then append_merge (bits v) excess x rest
                   else Inr (append_insert (bits v) xs)) of
               Inl e \<Rightarrow> Inl e
             | Inr bs \<Rightarrow>
                 Inr \<lparr>bits = bs, num_bits = num_bits v + bits_per_block * delta\<rparr>)"

text \<open>
  The two data members when the call returns, the blocks first. The length does not
  depend on the blocks: the early return leaves \<open>num_bits_\<close> as it is, and
  \<open>num_bits_ += bits_per_block * delta\<close> (line 136) follows both branches of the \<open>if\<close>
  and reads nothing they compute. So the length is given for every call, also for the
  calls whose blocks are an error value because C++ leaves their computation undefined.
  \<open>append_range\<close> is this pair with the error passed on.
\<close>

definition append_fields ::
  "BitVector \<Rightarrow> block_type list \<Rightarrow> (error + block_type list) \<times> size_type" where
  "append_fields v xs =
     (case xs of
        [] \<Rightarrow> (Inr (bits v), num_bits v)
      | x # rest \<Rightarrow>
          let excess = extra_bits v;
              delta = (of_nat (length xs) :: size_type)
          in (if excess = 0 then append_merge (bits v) excess x rest
              else Inr (append_insert (bits v) xs),
              num_bits v + bits_per_block * delta))"

subsection \<open>The two representation invariants\<close>

text \<open>
  The block-count invariant, \<open>blocks.size() == bits_to_blocks(length)\<close>, and the
  zero-padding invariant: every bit position \<open>i\<close> with
  \<open>length \<le> i < blocks.size() * bits_per_block\<close> holds 0. Bit \<open>i\<close> of the vector is bit
  \<open>i mod 64\<close> of block \<open>i div 64\<close>, as \<open>block_index\<close> and \<open>bit_index\<close> address it.
\<close>

definition test_bit :: "block_type list \<Rightarrow> nat \<Rightarrow> bool" where
  "test_bit bs i = bit (bs ! (i div 64)) (i mod 64)"

definition block_count_ok :: "BitVector \<Rightarrow> bool" where
  "block_count_ok v \<longleftrightarrow> length (bits v) = unat (bits_to_blocks (num_bits v))"

definition zero_padded :: "BitVector \<Rightarrow> bool" where
  "zero_padded v \<longleftrightarrow>
     (\<forall>i \<in> set [unat (num_bits v) ..< length (bits v) * 64]. \<not> test_bit (bits v) i)"

definition invariant :: "BitVector \<Rightarrow> bool" where
  "invariant v \<longleftrightarrow> block_count_ok v \<and> zero_padded v"

section \<open>Operations defined in BitVector.cc\<close>

text \<open>
  BitVector.h only declares the operations of this section; their bodies are in
  BitVector.cc, which is not part of the sources. Each definition below is written
  from the description the spec gives of the operation.
\<close>

subsection \<open>Zeroing the excess bits\<close>

text \<open>
  Modelled from the spec: \<open>zero_unused_bits\<close> (declared in BitVector.h, body in
  BitVector.cc) "clears those excess bits in place", the excess bits being the
  \<open>extra_bits()\<close> unused high bits of the final block. The final block is ANDed with the
  all-ones block shifted right by the excess, which keeps its used low bits.
\<close>

definition zero_unused_bits :: "BitVector \<Rightarrow> BitVector" where
  "zero_unused_bits v =
     (if extra_bits v = 0 \<or> bits v = [] then v
      else v\<lparr>bits := butlast (bits v) @
                       [last (bits v) AND drop_bit (unat (extra_bits v)) (- 1)]\<rparr>)"

subsection \<open>Shifts\<close>

text \<open>A block given by its 64 bits, least significant first.\<close>

definition block_of_bits :: "(nat \<Rightarrow> bool) \<Rightarrow> block_type" where
  "block_of_bits f = horner_sum of_bool 2 (map f [0..<64])"

text \<open>
  Modelled from the spec: \<open>operator<<\<close> (declared in BitVector.h, body in BitVector.cc)
  is the "logical shift increasing bit index; bits shifted beyond the vector's length are
  discarded; vacated low positions fill with 0; length unchanged; restore zero-padding
  invariant". Bit \<open>i\<close> of the result is bit \<open>i - n\<close> of the operand when
  \<open>n \<le> i < length\<close>, and 0 otherwise; the blocks are rebuilt from these bits.
\<close>

definition shift_left :: "BitVector \<Rightarrow> size_type \<Rightarrow> BitVector" where
  "shift_left v n =
     \<lparr>bits = map (\<lambda>b. block_of_bits (\<lambda>j.
                b * 64 + j < unat (num_bits v) \<and> unat n \<le> b * 64 + j \<and>
                test_bit (bits v) (b * 64 + j - unat n)))
              [0..<length (bits v)],
      num_bits = num_bits v\<rparr>"

text \<open>
  Modelled from the spec: \<open>operator>>\<close> (declared in BitVector.h, body in BitVector.cc)
  is "analogous in the opposite direction; vacated high positions fill with 0". Bit \<open>i\<close>
  of the result is bit \<open>i + n\<close> of the operand when \<open>i + n < length\<close>, and 0 otherwise.
\<close>

definition shift_right :: "BitVector \<Rightarrow> size_type \<Rightarrow> BitVector" where
  "shift_right v n =
     \<lparr>bits = map (\<lambda>b. block_of_bits (\<lambda>j.
                b * 64 + j + unat n < unat (num_bits v) \<and>
                test_bit (bits v) (b * 64 + j + unat n)))
              [0..<length (bits v)],
      num_bits = num_bits v\<rparr>"

subsection \<open>Scanning for set bits\<close>

text \<open>
  Modelled from the spec: \<open>lowest_bit\<close> (declared in BitVector.h, body in BitVector.cc)
  computes "the lowest set bit within that block (e.g. via trailing-zero count)": the
  number of 0 bits below the first 1 bit.
\<close>

definition lowest_bit :: "block_type \<Rightarrow> size_type" where
  "lowest_bit block = of_nat (length (takeWhile (\<lambda>j. \<not> bit block j) [0..<64]))"

text \<open>
  Modelled from the spec: \<open>find_from\<close> (declared in BitVector.h, body in BitVector.cc)
  is the "internal helper scanning blocks starting at a given block index for the first
  nonzero block; returns its bit position or \<open>npos\<close>", the bit position being the lowest
  set bit of that block offset by the block's base index.
\<close>

definition find_from :: "BitVector \<Rightarrow> size_type \<Rightarrow> size_type" where
  "find_from v i =
     (case find (\<lambda>k. bits v ! k \<noteq> 0) [unat i ..< length (bits v)] of
        None \<Rightarrow> npos
      | Some k \<Rightarrow> of_nat k * bits_per_block + lowest_bit (bits v ! k))"

text \<open>
  Modelled from the spec: \<open>find_next\<close> (declared in BitVector.h, body in BitVector.cc)
  "returns the lowest index \<open>> i\<close> with bit set, or \<open>npos\<close>", by "scanning within the
  remainder of the current block after masking off bits \<open><= i\<close>, then falling through to
  subsequent blocks"; "\<open>find_next(length-1)\<close> and \<open>find_next\<close> near \<open>npos\<close> must return
  \<open>npos\<close>, not wrap or underflow". The first test answers \<open>npos\<close> when no position of the
  vector lies after \<open>i\<close>, compared without wrap-around.
\<close>

definition find_next :: "BitVector \<Rightarrow> size_type \<Rightarrow> size_type" where
  "find_next v i =
     (if unat (num_bits v) \<le> unat i + 1 then npos
      else
        let bi = block_index i;
            block = (bits v ! unat bi) AND NOT (mask (unat (bit_index i) + 1))
        in if block \<noteq> 0 then bi * bits_per_block + lowest_bit block
           else find_from v (bi + 1))"

subsection \<open>Serialization\<close>

text \<open>
  Modelled from the spec: \<open>Serialize\<close> and \<open>Unserialize\<close> are declared in BitVector.h;
  their bodies and the stream classes \<open>SerialInfo\<close> and \<open>UnserialInfo\<close> are not part of
  the sources. The spec's layout is the length followed by the block sequence, "pinned to
  a fixed block width": the stream is taken as the list of its 64-bit fields, the length
  first. \<open>Serialize\<close> emits "\<open>length\<close> followed by the block sequence".
\<close>

definition Serialize :: "BitVector \<Rightarrow> 64 word list" where
  "Serialize v = num_bits v # bits v"

text \<open>
  Modelled from the spec: \<open>Unserialize\<close> reads "\<open>length\<close> and the block sequence",
  "fails (reports a deserialization error) if block count is inconsistent with the
  declared \<open>length\<close>, or if the byte stream is truncated", and re-establishes the
  zero-padding invariant. The source returns a \<open>BitVector*\<close>; the failure is the null
  pointer, \<open>None\<close> here. A stream cut short lacks the length or some of the
  \<open>bits_to_blocks(length)\<close> blocks.
\<close>

definition Unserialize :: "64 word list \<Rightarrow> BitVector option" where
  "Unserialize stream =
     (case stream of
        [] \<Rightarrow> None
      | len # blocks \<Rightarrow>
          if length blocks \<noteq> unat (bits_to_blocks len) then None
          else Some (zero_unused_bits \<lparr>bits = blocks, num_bits = len\<rparr>))"

section \<open>The extraction limit check (file_analysis/analyzer/extract/Extract.cc)\<close>

text \<open>
  \<open>check_limit_exceeded(lim, depth, len, &n)\<close> on \<open>uint64_t\<close> values. The function stores
  into \<open>*n\<close> on every path; the embedding returns the pair of the boolean result and the
  value stored into \<open>*n\<close>. All arithmetic is the source's unsigned 64-bit arithmetic.
  The parameter \<open>lim\<close> is written \<open>limit\<close>, apart from the limit operator of HOL.
\<close>

definition check_limit_exceeded :: "64 word \<Rightarrow> 64 word \<Rightarrow> 64 word \<Rightarrow> bool \<times> 64 word" where
  "check_limit_exceeded limit depth len =
     (if limit = 0 then (False, len)
      else if depth \<ge> limit then (True, 0)
      else if depth + len > limit then (True, limit - depth)
      else (False, len))"

section \<open>Arithmetic facts on 64-bit words\<close>

lemma unat_add64:
  "unat (a + b :: 64 word) =
     (if unat a + unat b < 2 ^ 64 then unat a + unat b else unat a + unat b - 2 ^ 64)"
  using unat_plus_if_size [of a b] by (simp add: word_size)

lemma div_up_exact:
  assumes "(m::nat) mod 64 = 0"
  shows "(m + 63) div 64 = m div 64"
proof -
  from assms obtain q where "m = 64 * q"
    by (auto elim: dvdE simp: mod_eq_0_iff_dvd)
  then show ?thesis by simp
qed

lemma div_up_inexact:
  assumes "(m::nat) mod 64 \<noteq> 0"
  shows "(m + 63) div 64 = m div 64 + 1"
proof -
  define q where "q = m div 64"
  define r where "r = m mod 64 - 1"
  have r: "r < 64" by (simp add: r_def less_imp_diff_less)
  have "m = 64 * q + (r + 1)" using assms by (simp add: q_def r_def)
  then have "m + 63 = r + (q + 1) * 64" by simp
  then have "(m + 63) div 64 = (r + (q + 1) * 64) div 64" by simp
  also have "\<dots> = q + 1"
    using r by (simp only: div_mult_self1 div_mult_self2 div_mult_self3 div_less)
  finally show ?thesis by (simp add: q_def)
qed

lemma unat_bits_to_blocks: "unat (bits_to_blocks n) = (unat n + 63) div 64"
proof -
  have q: "unat (n div 64) = unat n div 64" by (simp add: unat_div)
  have r: "unat (n mod 64) = unat n mod 64" by (simp add: unat_mod)
  have lt: "unat n < 2 ^ 64" using unsigned_less [of n] by simp
  show ?thesis
  proof (cases "n mod 64 = 0")
    case True
    then have "unat n mod 64 = 0" using r by simp
    then have "(unat n + 63) div 64 = unat n div 64" by (rule div_up_exact)
    moreover have "bits_to_blocks n = n div 64"
      using True by (simp add: bits_to_blocks_def bits_per_block_def)
    ultimately show ?thesis using q by simp
  next
    case False
    then have "unat n mod 64 \<noteq> 0" using r by (metis unat_eq_0)
    then have e: "(unat n + 63) div 64 = unat n div 64 + 1" by (rule div_up_inexact)
    have small: "unat (n div 64) + unat (1 :: 64 word) < 2 ^ 64" using lt q by simp
    have "unat (n div 64 + 1) = unat (n div 64) + unat (1 :: 64 word)"
      using small by (simp only: unat_add64 if_True)
    moreover have "bits_to_blocks n = n div 64 + 1"
      using False by (simp add: bits_to_blocks_def bits_per_block_def)
    ultimately show ?thesis using q e by simp
  qed
qed

lemma ceiling_div_64: "\<lceil>real m / 64\<rceil> = int ((m + 63) div 64)"
proof (cases "m mod 64 = 0")
  case True
  then obtain q where m: "m = 64 * q"
    by (auto elim: dvdE simp: mod_eq_0_iff_dvd)
  have "real m / 64 = real q" by (simp add: m)
  then have "\<lceil>real m / 64\<rceil> = int q" by simp
  moreover have "(m + 63) div 64 = q" by (simp add: m)
  ultimately show ?thesis by simp
next
  case False
  define q where "q = m div 64"
  define r where "r = m mod 64"
  have r: "0 < r" "r < 64" using False by (simp_all add: r_def)
  have m: "m = 64 * q + r" by (simp add: q_def r_def)
  have up: "(m + 63) div 64 = q + 1"
    using div_up_inexact [OF False] by (simp add: q_def)
  have eq: "real m / 64 = real q + real r / 64" by (simp add: m)
  have lo: "real q < real m / 64" using r(1) by (simp add: eq)
  have hi: "real m / 64 \<le> real q + 1" using r(2) by (simp add: eq)
  have "\<lceil>real m / 64\<rceil> = int q + 1"
  proof (rule ceiling_unique)
    show "of_int (int q + 1) - 1 < real m / 64" using lo by simp
    show "real m / 64 \<le> of_int (int q + 1)" using hi by simp
  qed
  then show ?thesis using up by simp
qed

lemma limit_no_wrap:
  assumes "\<not> limit \<le> depth" "limit < depth + len"
  shows "unat depth + unat (len :: 64 word) < 2 ^ 64"
proof (rule ccontr)
  assume "\<not> ?thesis"
  then have "unat (depth + len) = unat depth + unat len - 2 ^ 64"
    by (simp add: unat_add64)
  moreover have "unat len < 2 ^ 64" using unsigned_less [of len] by simp
  ultimately have "unat (depth + len) \<le> unat depth" by simp
  moreover have "unat depth < unat limit" using assms(1) by (simp add: word_le_nat_alt)
  moreover have "unat limit < unat (depth + len)"
    using assms(2) by (simp add: word_less_nat_alt)
  ultimately show False by simp
qed

lemma limit_remainder:
  assumes "\<not> limit \<le> depth" "limit < depth + len"
  shows "unat (limit - depth) = unat limit - unat depth"
    and "unat limit - unat depth < unat (len :: 64 word)"
proof -
  have nw: "unat depth + unat len < 2 ^ 64" using assms by (rule limit_no_wrap)
  have d: "depth \<le> limit" using assms(1) by simp
  then show "unat (limit - depth) = unat limit - unat depth" by (rule unat_sub)
  have "unat (depth + len) = unat depth + unat len"
    using nw by (simp only: unat_add64 if_True)
  then have "unat limit < unat depth + unat len"
    using assms(2) by (simp add: word_less_nat_alt)
  moreover have "unat depth \<le> unat limit" using d by (simp add: word_le_nat_alt)
  ultimately show "unat limit - unat depth < unat len" by linarith
qed

subsection \<open>Case analysis of \<open>check_limit_exceeded\<close>\<close>

lemma cle_stored_le:
  assumes "check_limit_exceeded limit depth len = (r, n)"
  shows "n \<le> len"
proof (cases "limit \<noteq> 0 \<and> \<not> limit \<le> depth \<and> limit < depth + len")
  case True
  then have "n = limit - depth" using assms by (simp add: check_limit_exceeded_def)
  then show ?thesis using limit_remainder [of limit depth len] True
    by (simp add: word_le_nat_alt)
next
  case False
  then have "n = len \<or> n = 0" using assms
    by (auto simp: check_limit_exceeded_def split: if_splits)
  then show ?thesis by auto
qed

lemma cle_unlimited:
  "check_limit_exceeded 0 depth len = (False, len)"
  by (simp add: check_limit_exceeded_def)

lemma cle_within:
  assumes "check_limit_exceeded limit depth len = (r, n)" "limit \<noteq> 0" "depth \<le> limit"
  shows "depth + n \<le> limit"
  using assms by (auto simp: check_limit_exceeded_def split: if_splits)

lemma cle_returns:
  assumes "check_limit_exceeded limit depth len = (r, n)"
  shows "r \<longleftrightarrow> limit \<noteq> 0 \<and> (depth \<ge> limit \<or> depth + len > limit)"
  using assms by (auto simp: check_limit_exceeded_def split: if_splits)

lemma cle_nat:
  assumes "check_limit_exceeded limit depth len = (r, n)"
    and nw: "unat depth + unat len < 2 ^ 64"
  shows "limit \<noteq> 0 \<Longrightarrow> depth \<le> limit \<Longrightarrow> unat depth + unat n \<le> unat limit"
    and "r \<longleftrightarrow> limit \<noteq> 0 \<and> (unat depth \<ge> unat limit \<or> unat depth + unat len > unat limit)"
proof -
  have s: "unat (depth + len) = unat depth + unat len"
    using nw by (simp only: unat_add64 if_True)
  have lt: "(limit < depth + len) = (unat limit < unat depth + unat len)"
    by (simp add: word_less_nat_alt s)
  have le: "(limit \<le> depth) = (unat limit \<le> unat depth)"
    by (simp add: word_le_nat_alt)
  show "r \<longleftrightarrow> limit \<noteq> 0 \<and> (unat depth \<ge> unat limit \<or> unat depth + unat len > unat limit)"
    using cle_returns [OF assms(1)] by (simp only: lt le)
  assume a: "limit \<noteq> 0" "depth \<le> limit"
  have "unat (depth + n) = unat depth + unat n"
  proof -
    have "unat n \<le> unat len" using cle_stored_le [OF assms(1)] by (simp add: word_le_nat_alt)
    then have "unat depth + unat n < 2 ^ 64" using nw by simp
    then show ?thesis by (simp only: unat_add64 if_True)
  qed
  then show "unat depth + unat n \<le> unat limit"
    using cle_within [OF assms(1) a] by (simp add: word_le_nat_alt)
qed

section \<open>Facts about the bulk append and the constructor\<close>

lemma mod64_add: "(n + 64 * k) mod 64 = (n mod 64 :: 64 word)"
proof -
  have d: "(64::nat) dvd 2 ^ 64" by simp
  have "unat ((n + 64 * k) mod 64) = unat (n + 64 * k) mod 64"
    by (simp add: unat_mod)
  also have "\<dots> = ((unat n + (64 * unat k) mod 2 ^ 64) mod 2 ^ 64) mod 64"
    by (simp add: unat_word_ariths)
  also have "\<dots> = (unat n + (64 * unat k) mod 2 ^ 64) mod 64"
    using d by (rule mod_mod_cancel)
  also have "\<dots> = (unat n mod 64 + ((64 * unat k) mod 2 ^ 64) mod 64) mod 64"
    by (rule mod_add_eq [symmetric])
  also have "((64 * unat k) mod 2 ^ 64) mod 64 = (64 * unat k) mod 64"
    using d by (rule mod_mod_cancel)
  also have "(unat n mod 64 + (64 * unat k) mod 64) mod 64 = unat n mod 64"
    by simp
  also have "\<dots> = unat (n mod 64)" by (simp add: unat_mod)
  finally show ?thesis by (rule word_unat_eq_iff [THEN iffD2])
qed
lemma extra_bits_append:
  "extra_bits \<lparr>bits = bs, num_bits = num_bits v + bits_per_block * k\<rparr> = extra_bits v"
  by (simp add: extra_bits_def bits_per_block_def mod64_add)
lemma mult64_mod: "(bits_per_block * k) mod bits_per_block = 0"
  using mod64_add [of 0 k] by (simp add: bits_per_block_def)
lemma shr_full: "shr x bits_per_block = Inl ShiftCountOutOfRange"
  by (simp add: shr_def)
lemma shl_zero: "shl x 0 = Inr x"
  by (simp add: shl_def bits_per_block_def)
lemma append_merge_aligned:
  "append_merge bs 0 x rest =
     (if bs = [] then Inl BackOfEmptyVector else Inl ShiftCountOutOfRange)"
  by (simp add: append_merge_def shl_zero shr_full)

lemma append_nonempty:
  "append_range v (x # rest) =
     (case (if extra_bits v = 0 then append_merge (bits v) (extra_bits v) x rest
            else Inr (append_insert (bits v) (x # rest))) of
        Inl e \<Rightarrow> Inl e
      | Inr bs \<Rightarrow>
          Inr \<lparr>bits = bs,
               num_bits = num_bits v + bits_per_block * of_nat (length (x # rest))\<rparr>)"
  by (simp only: append_range_def Let_def list.case)

lemma append_zero_excess_error:
  assumes "extra_bits v = 0" "xs \<noteq> []"
  shows "append_range v xs =
    (if bits v = [] then Inl BackOfEmptyVector else Inl ShiftCountOutOfRange)"
proof -
  obtain x rest where xs: "xs = x # rest" using assms(2) by (cases xs) auto
  show ?thesis
    unfolding xs using assms(1) by (simp add: append_nonempty append_merge_aligned)
qed

lemma append_nonzero_excess:
  assumes "extra_bits v \<noteq> 0" "xs \<noteq> []"
  shows "append_range v xs =
    Inr \<lparr>bits = bits v @ xs, num_bits = num_bits v + bits_per_block * of_nat (length xs)\<rparr>"
proof -
  obtain x rest where xs: "xs = x # rest" using assms(2) by (cases xs) auto
  show ?thesis
    unfolding xs using assms(1) by (simp add: append_nonempty append_insert_def)
qed

lemma append_fields_length:
  "snd (append_fields v xs) = num_bits v + bits_per_block * of_nat (length xs)"
  by (cases xs) (simp_all add: append_fields_def Let_def)

lemma append_range_fields:
  "append_range v xs =
     (case fst (append_fields v xs) of
        Inl e \<Rightarrow> Inl e
      | Inr bs \<Rightarrow> Inr \<lparr>bits = bs, num_bits = snd (append_fields v xs)\<rparr>)"
proof (cases xs)
  case Nil
  have "\<lparr>bits = bits v, num_bits = num_bits v\<rparr> = v" by (cases v) simp
  then show ?thesis using Nil by (simp add: append_range_def append_fields_def)
next
  case (Cons x rest)
  show ?thesis
    unfolding Cons by (simp only: append_range_def append_fields_def Let_def list.case fst_conv snd_conv)
qed

lemma extra_bits_default: "extra_bits BitVector_default = 0"
  by (simp add: extra_bits_def BitVector_default_def bits_per_block_def)

lemma test_bit_66: "test_bit [1, 5] 66"
  by (simp add: test_bit_def)

lemma zero_padded_1: "zero_padded \<lparr>bits = [1], num_bits = 1\<rparr>"
  by (auto simp: zero_padded_def test_bit_def bit_1_iff)

lemma block_count_1: "block_count_ok \<lparr>bits = [1], num_bits = 1\<rparr>"
  by (simp add: block_count_ok_def unat_bits_to_blocks)

lemma block_count_65: "block_count_ok \<lparr>bits = [1, 5], num_bits = 65\<rparr>"
  by (simp add: block_count_ok_def unat_bits_to_blocks)

text \<open>The constructor from a block range establishes both invariants (for a range
  whose bit count fits \<open>size_type\<close>).\<close>

lemma from_blocks_invariant:
  assumes "length xs < 2 ^ 58"
  shows "invariant (BitVector_from_blocks xs)"
proof -
  define k where "k = length xs"
  have lt: "k * 64 < 2 ^ 64" using assms by (simp add: k_def)
  have "(of_nat k :: 64 word) * 64 = of_nat (k * 64)" by simp
  then have u: "unat ((of_nat k :: 64 word) * 64) = k * 64"
    using lt by (simp only: unat_of_nat) simp
  have "(k * 64 + 63) div 64 = k" by simp
  then have "block_count_ok (BitVector_from_blocks xs)"
    using u by (simp add: block_count_ok_def BitVector_from_blocks_def bits_per_block_def
        unat_bits_to_blocks k_def)
  moreover have "zero_padded (BitVector_from_blocks xs)"
    using u by (simp add: zero_padded_def BitVector_from_blocks_def bits_per_block_def k_def)
  ultimately show ?thesis by (simp add: invariant_def)
qed

section \<open>Facts about the operations of BitVector.cc\<close>

subsection \<open>Shifts\<close>

lemma bit_block_of_bits: "bit (block_of_bits f) j \<longleftrightarrow> j < 64 \<and> f j"
  by (auto simp: block_of_bits_def bit_horner_sum_bit_word_iff)

lemma block_of_bits_False: "block_of_bits (\<lambda>j. False) = 0"
  by (rule bit_eqI) (simp add: bit_block_of_bits)

lemma shift_left_beyond:
  assumes "unat (num_bits v) \<le> unat n"
  shows "shift_left v n = \<lparr>bits = replicate (length (bits v)) 0, num_bits = num_bits v\<rparr>"
proof -
  have "block_of_bits (\<lambda>j. b * 64 + j < unat (num_bits v) \<and> unat n \<le> b * 64 + j \<and>
          test_bit (bits v) (b * 64 + j - unat n)) = 0" for b
    using assms by (intro bit_eqI) (auto simp: bit_block_of_bits)
  then show ?thesis
    by (simp add: shift_left_def map_replicate_const)
qed

lemma shift_right_beyond:
  assumes "unat (num_bits v) \<le> unat n"
  shows "shift_right v n = \<lparr>bits = replicate (length (bits v)) 0, num_bits = num_bits v\<rparr>"
proof -
  have "block_of_bits (\<lambda>j. b * 64 + j + unat n < unat (num_bits v) \<and>
          test_bit (bits v) (b * 64 + j + unat n)) = 0" for b
    using assms by (intro bit_eqI) (auto simp: bit_block_of_bits)
  then show ?thesis
    by (simp add: shift_right_def map_replicate_const)
qed

lemma test_bit_replicate_0: "i < k * 64 \<Longrightarrow> \<not> test_bit (replicate k 0) i"
  by (simp add: test_bit_def less_mult_imp_div_less)

subsection \<open>Excess bits and serialization\<close>

lemma unat_extra_bits: "unat (extra_bits v) = (64 - unat (num_bits v) mod 64) mod 64"
proof -
  have m: "unat (num_bits v mod 64) = unat (num_bits v) mod 64" by (simp add: unat_mod)
  have lt: "unat (num_bits v) mod 64 < 64" by simp
  have le: "num_bits v mod 64 \<le> 64"
    using lt m by (simp add: word_le_nat_alt)
  have "unat (64 - num_bits v mod 64) = unat (64 :: 64 word) - unat (num_bits v mod 64)"
    using le by (rule unat_sub)
  then have "unat (64 - num_bits v mod 64) = 64 - unat (num_bits v) mod 64"
    using m by simp
  then show ?thesis
    by (simp add: extra_bits_def bits_per_block_def unat_mod)
qed

lemma extra_bits_zero_iff: "extra_bits v = 0 \<longleftrightarrow> unat (num_bits v) mod 64 = 0"
proof -
  have "extra_bits v = 0 \<longleftrightarrow> unat (extra_bits v) = 0" by (simp add: unat_eq_0)
  also have "\<dots> \<longleftrightarrow> (64 - unat (num_bits v) mod 64) mod 64 = 0"
    by (simp only: unat_extra_bits)
  also have "\<dots> \<longleftrightarrow> unat (num_bits v) mod 64 = 0"
  proof (cases "unat (num_bits v) mod 64 = 0")
    case True
    then show ?thesis by simp
  next
    case False
    then have "64 - unat (num_bits v) mod 64 < 64" by simp
    moreover have "0 < 64 - unat (num_bits v) mod 64"
      using mod_less_divisor [of 64 "unat (num_bits v)"] by simp
    ultimately show ?thesis using False by simp
  qed
  finally show ?thesis .
qed

lemma unat_extra_bits_nonzero:
  assumes "extra_bits v \<noteq> 0"
  shows "unat (extra_bits v) = 64 - unat (num_bits v) mod 64"
proof -
  have nz: "unat (num_bits v) mod 64 \<noteq> 0" using assms by (simp add: extra_bits_zero_iff)
  then have "64 - unat (num_bits v) mod 64 < 64" by simp
  then show ?thesis by (simp add: unat_extra_bits)
qed

text \<open>Positions between the length and the end of the last block.\<close>

lemma excess_position:
  fixes len p :: nat
  assumes "len \<le> p" "p < ((len + 63) div 64) * 64"
  shows "len mod 64 \<noteq> 0" and "p div 64 = len div 64"
    and "(len + 63) div 64 = len div 64 + 1" and "len mod 64 \<le> p mod 64"
proof -
  show nz: "len mod 64 \<noteq> 0"
  proof
    assume z: "len mod 64 = 0"
    then have "(len + 63) div 64 = len div 64" by (rule div_up_exact)
    moreover have "len div 64 * 64 = len" using z by (simp add: mod_eq_0_iff_dvd)
    ultimately show False using assms by simp
  qed
  then show up: "(len + 63) div 64 = len div 64 + 1" by (rule div_up_inexact)
  have "p div 64 < len div 64 + 1"
    using assms(2) up by (simp add: less_mult_imp_div_less)
  moreover have "len div 64 \<le> p div 64" using assms(1) by (rule div_le_mono)
  ultimately show d: "p div 64 = len div 64" by simp
  have "p = p div 64 * 64 + p mod 64" by simp
  moreover have "len = len div 64 * 64 + len mod 64" by simp
  ultimately show "len mod 64 \<le> p mod 64" using assms(1) d
    by (metis add_le_cancel_left)
qed

lemma bit_keep_used: "bit (x AND drop_bit e (- 1 :: 64 word)) j \<longleftrightarrow> bit x j \<and> e + j < 64"
  using bit_imp_le_length [of x j]
  by (auto simp: bit_and_iff bit_mask_iff)

lemma bit_keep_used_mask:
  "bit (x AND mask (64 - e) :: 64 word) j \<longleftrightarrow> bit x j \<and> e + j < 64"
  using bit_imp_le_length [of x j]
  by (auto simp: bit_and_iff bit_mask_iff)

lemma nth_replace_last:
  assumes "bs \<noteq> []" "k < length bs"
  shows "(butlast bs @ [x]) ! k = (if k = length bs - 1 then x else bs ! k)"
  using assms by (auto simp: nth_append nth_butlast)

lemma zero_unused_bits_num_bits: "num_bits (zero_unused_bits v) = num_bits v"
  by (simp add: zero_unused_bits_def)

lemma zero_unused_bits_length: "length (bits (zero_unused_bits v)) = length (bits v)"
  by (simp add: zero_unused_bits_def)

lemma zero_unused_bits_padded:
  assumes "block_count_ok v"
  shows "zero_padded (zero_unused_bits v)"
proof -
  define len where "len = unat (num_bits v)"
  have nb: "length (bits v) = (len + 63) div 64"
    using assms by (simp add: block_count_ok_def unat_bits_to_blocks len_def)
  have "\<not> test_bit (bits (zero_unused_bits v)) p"
    if p: "len \<le> p" "p < length (bits v) * 64" for p
  proof -
    have p2: "p < ((len + 63) div 64) * 64" using p(2) nb by simp
    note e = excess_position [OF p(1) p2]
    have ne: "extra_bits v \<noteq> 0" using e(1) by (simp add: extra_bits_zero_iff len_def)
    have nonempty: "bits v \<noteq> []" using p(2) by auto
    have idx: "p div 64 = length (bits v) - 1" using e(2) e(3) nb by simp
    have ex: "unat (extra_bits v) = 64 - len mod 64"
      using unat_extra_bits_nonzero [OF ne] by (simp add: len_def)
    have "64 \<le> unat (extra_bits v) + p mod 64" using ex e(4) by simp
    then show ?thesis
      using ne nonempty idx
      by (simp add: zero_unused_bits_def test_bit_def nth_replace_last bit_keep_used_mask)
  qed
  then show ?thesis
    by (simp add: zero_padded_def zero_unused_bits_num_bits zero_unused_bits_length len_def)
qed

lemma zero_unused_bits_invariant:
  assumes "block_count_ok v"
  shows "invariant (zero_unused_bits v)"
  using assms zero_unused_bits_padded [OF assms]
  by (simp add: invariant_def block_count_ok_def zero_unused_bits_num_bits
      zero_unused_bits_length)

lemma zero_unused_bits_id:
  assumes "invariant v"
  shows "zero_unused_bits v = v"
proof (cases "extra_bits v = 0 \<or> bits v = []")
  case True
  then show ?thesis by (simp add: zero_unused_bits_def)
next
  case False
  define len where "len = unat (num_bits v)"
  have nb: "length (bits v) = (len + 63) div 64"
    using assms by (simp add: invariant_def block_count_ok_def unat_bits_to_blocks len_def)
  have nz: "len mod 64 \<noteq> 0" using False by (simp add: extra_bits_zero_iff len_def)
  have up: "length (bits v) = len div 64 + 1" using nb div_up_inexact [OF nz] by simp
  have ex: "unat (extra_bits v) = 64 - len mod 64"
    using unat_extra_bits_nonzero False by (simp add: len_def)
  have pad: "\<not> test_bit (bits v) p" if "len \<le> p" "p < length (bits v) * 64" for p
    using assms that by (simp add: invariant_def zero_padded_def len_def)
  have "last (bits v) AND drop_bit (unat (extra_bits v)) (- 1) = last (bits v)"
  proof (rule bit_eqI)
    fix j
    assume "possible_bit TYPE(64 word) j"
    show "bit (last (bits v) AND drop_bit (unat (extra_bits v)) (- 1)) j = bit (last (bits v)) j"
    proof (cases "bit (last (bits v)) j \<and> 64 \<le> unat (extra_bits v) + j")
      case False
      then show ?thesis by (auto simp: bit_keep_used_mask)
    next
      case True
      then have j: "j < 64" using bit_imp_le_length [of "last (bits v)" j] by simp
      define p where "p = len div 64 * 64 + j"
      have pd: "p div 64 = len div 64" "p mod 64 = j" using j by (simp_all add: p_def)
      have "len = len div 64 * 64 + len mod 64" by simp
      moreover have "len mod 64 \<le> j"
      proof -
        have "len mod 64 < 64" by simp
        moreover have "64 \<le> (64 - len mod 64) + j" using True ex by simp
        ultimately show ?thesis by linarith
      qed
      ultimately have "len \<le> p" unfolding p_def by linarith
      moreover have "p < length (bits v) * 64" using j up by (simp add: p_def)
      ultimately have "\<not> test_bit (bits v) p" by (rule pad)
      moreover have "bits v ! (len div 64) = last (bits v)"
        using False up by (simp add: last_conv_nth)
      ultimately show ?thesis using True by (simp add: test_bit_def pd)
    qed
  qed
  then have "butlast (bits v) @ [last (bits v) AND drop_bit (unat (extra_bits v)) (- 1)] = bits v"
    using False by simp
  then show ?thesis using False by (simp add: zero_unused_bits_def)
qed

subsection \<open>Scanning for set bits\<close>

lemma block_nonzero_iff: "(b :: 64 word) \<noteq> 0 \<longleftrightarrow> (\<exists>j<64. bit b j)"
proof
  assume nz: "b \<noteq> 0"
  have "b = 0" if "\<forall>j. \<not> bit b j"
    using that by (intro bit_eqI) simp
  then obtain j where j: "bit b j" using nz by blast
  then have "j < 64" using bit_imp_le_length [of b j] by simp
  then show "\<exists>j<64. bit b j" using j by blast
next
  assume "\<exists>j<64. bit b j"
  then show "b \<noteq> 0" by auto
qed

lemma lowest_bit_props:
  fixes b :: "64 word"
  assumes "b \<noteq> 0"
  defines "m \<equiv> length (takeWhile (\<lambda>j. \<not> bit b j) [0..<64])"
  shows "m < 64" and "bit b m" and "\<And>j. j < m \<Longrightarrow> \<not> bit b j"
    and "lowest_bit b = of_nat m"
proof -
  let ?P = "\<lambda>j. \<not> bit b j"
  let ?xs = "[0..<64] :: nat list"
  obtain j0 where j0: "j0 < 64" "bit b j0"
    using assms(1) by (auto simp: block_nonzero_iff)
  have le: "m \<le> 64" using length_takeWhile_le [of ?P ?xs] by (simp add: m_def)
  show lt: "m < 64"
  proof (rule ccontr)
    assume "\<not> m < 64"
    then have "m = length ?xs" using le by simp
    then have "takeWhile ?P ?xs = ?xs"
      using takeWhile_eq_take [of ?P ?xs] by (simp add: m_def)
    then have "\<forall>x \<in> set ?xs. ?P x" by (simp only: takeWhile_eq_all_conv)
    then show False using j0 by simp
  qed
  have "\<not> ?P (?xs ! m)"
    unfolding m_def by (rule nth_length_takeWhile) (use lt in \<open>simp add: m_def\<close>)
  then show "bit b m" using lt by simp
  show "\<not> bit b j" if "j < m" for j
  proof -
    have jl: "j < length (takeWhile ?P ?xs)" using that by (simp add: m_def)
    then have "takeWhile ?P ?xs ! j = ?xs ! j" by (rule takeWhile_nth)
    then have e: "takeWhile ?P ?xs ! j = j" using that lt by simp
    have "takeWhile ?P ?xs ! j \<in> set (takeWhile ?P ?xs)" using jl by (rule nth_mem)
    then have "?P (takeWhile ?P ?xs ! j)" by (rule set_takeWhileD [THEN conjunct2])
    then show ?thesis using e by simp
  qed
  show "lowest_bit b = of_nat m" by (simp add: lowest_bit_def m_def)
qed

lemma find_upt_None:
  "find P [a..<n] = None \<Longrightarrow> a \<le> k \<Longrightarrow> k < n \<Longrightarrow> \<not> P k"
  by (auto simp: find_None_iff)

lemma find_upt_Some:
  assumes "find P [a..<n] = Some k"
  shows "a \<le> k" and "k < n" and "P k" and "\<And>j. a \<le> j \<Longrightarrow> j < k \<Longrightarrow> \<not> P j"
proof -
  from assms obtain i where i: "i < length [a..<n]" "P ([a..<n] ! i)" "k = [a..<n] ! i"
    "\<forall>j<i. \<not> P ([a..<n] ! j)"
    by (auto simp: find_Some_iff)
  have ki: "k = a + i" using i(1,3) by simp
  show "a \<le> k" using ki by simp
  show "k < n" using ki i(1) by simp
  show "P k" using i(2,3) by simp
  show "\<not> P j" if "a \<le> j" "j < k" for j
  proof -
    have "j - a < i" using that ki by simp
    then have "\<not> P ([a..<n] ! (j - a))" using i(4) by blast
    moreover have "[a..<n] ! (j - a) = j" using that ki i(1) by simp
    ultimately show ?thesis by simp
  qed
qed

lemma pos_split:
  fixes p :: nat
  obtains q s where "p = q * 64 + s" "s < 64" "p div 64 = q" "p mod 64 = s"
  by (rule that [of "p div 64" "p mod 64"]) simp_all

lemma test_bit_pos: "s < 64 \<Longrightarrow> test_bit bs (q * 64 + s) = bit (bs ! q) s"
  by (simp add: test_bit_def)

lemma scan_None:
  assumes "find (\<lambda>k. bs ! k \<noteq> 0) [a..<length bs] = None"
    and "a * 64 \<le> p" "p < length bs * 64"
  shows "\<not> test_bit bs p"
proof -
  obtain q s where p: "p = q * 64 + s" "s < 64" by (rule pos_split)
  have "a \<le> q" using assms(2) p by simp
  moreover have "q < length bs" using assms(3) p by simp
  ultimately have "bs ! q = 0" using find_upt_None [OF assms(1)] by blast
  then show ?thesis using p by (simp add: test_bit_pos)
qed

lemma scan_Some:
  assumes f: "find (\<lambda>k. bs ! k \<noteq> 0) [a..<length bs] = Some k"
  defines "m \<equiv> length (takeWhile (\<lambda>j. \<not> bit (bs ! k) j) [0..<64])"
  shows "a \<le> k" and "k < length bs" and "m < 64" and "test_bit bs (k * 64 + m)"
    and "\<And>p. a * 64 \<le> p \<Longrightarrow> p < k * 64 + m \<Longrightarrow> \<not> test_bit bs p"
    and "lowest_bit (bs ! k) = of_nat m"
proof -
  note u = find_upt_Some [OF f]
  show "a \<le> k" "k < length bs" by (rule u)+
  have nz: "bs ! k \<noteq> 0" by (rule u(3))
  note l = lowest_bit_props [OF nz]
  show m: "m < 64" unfolding m_def by (rule l(1))
  have bm: "bit (bs ! k) m" unfolding m_def by (rule l(2))
  then show "test_bit bs (k * 64 + m)" using m by (simp add: test_bit_pos)
  show "lowest_bit (bs ! k) = of_nat m" unfolding m_def by (rule l(4))
  show "\<not> test_bit bs p" if "a * 64 \<le> p" "p < k * 64 + m" for p
  proof -
    obtain q s where p: "p = q * 64 + s" "s < 64" by (rule pos_split)
    have aq: "a \<le> q" using that(1) p by simp
    have qk: "q \<le> k" using that(2) p m by simp
    show ?thesis
    proof (cases "q = k")
      case True
      then have "s < m" using that(2) p by simp
      then have "\<not> bit (bs ! k) s" unfolding m_def by (rule l(3))
      then show ?thesis using p True by (simp add: test_bit_pos)
    next
      case False
      then have "q < k" using qk by simp
      then have "bs ! q = 0" using u(4) [OF aq] by blast
      then show ?thesis using p by (simp add: test_bit_pos)
    qed
  qed
qed


lemma block_cover: "(len :: nat) \<le> ((len + 63) div 64) * 64"
proof (cases "len mod 64 = 0")
  case True
  then have "(len + 63) div 64 = len div 64" by (rule div_up_exact)
  moreover have "len div 64 * 64 = len" using True by (simp add: mod_eq_0_iff_dvd)
  ultimately show ?thesis by simp
next
  case False
  then have "(len + 63) div 64 = len div 64 + 1" by (rule div_up_inexact)
  moreover have "len = len div 64 * 64 + len mod 64" by simp
  moreover have "len mod 64 < 64" by simp
  ultimately show ?thesis by (metis add_le_cancel_left add_mult_distrib less_imp_le mult_1)
qed

lemma blocks_bound:
  assumes "(len :: nat) < 2 ^ 64"
  shows "((len + 63) div 64) * 64 \<le> 2 ^ 64"
proof -
  have "len + 63 \<le> 2 ^ 64 + 62" using assms by simp
  then have "(len + 63) div 64 \<le> (2 ^ 64 + 62) div 64" by (rule div_le_mono)
  also have "\<dots> = (2 ^ 58 :: nat)" by simp
  finally have "((len + 63) div 64) * 64 \<le> 2 ^ 58 * 64" by simp
  then show ?thesis by simp
qed

lemma unat_npos: "unat npos = 2 ^ 64 - 1"
  by (simp add: npos_def unsigned_minus_1_eq_mask mask_eq_exp_minus_1)

lemma word_of_pos:
  "(of_nat q :: 64 word) * bits_per_block + of_nat s = of_nat (q * 64 + s)"
  by (simp add: bits_per_block_def)

lemma find_next_core:
  fixes v :: BitVector and i :: size_type
  assumes inv: "invariant v"
  defines "len \<equiv> unat (num_bits v)" and "I \<equiv> unat i"
  shows "(find_next v i = npos \<and> (\<forall>j. I < j \<and> j < len \<longrightarrow> \<not> test_bit (bits v) j)) \<or>
         (\<exists>r. find_next v i = of_nat r \<and> I < r \<and> r < len \<and> test_bit (bits v) r \<and>
              (\<forall>j. I < j \<and> j < r \<longrightarrow> \<not> test_bit (bits v) j))"
proof (cases "len \<le> I + 1")
  case True
  then have "find_next v i = npos" by (simp add: find_next_def len_def I_def)
  moreover have "\<not> (I < j \<and> j < len)" for j using True by simp
  ultimately show ?thesis by blast
next
  case False
  define nb where "nb = length (bits v)"
  have nb: "nb = (len + 63) div 64"
    using inv by (simp add: invariant_def block_count_ok_def unat_bits_to_blocks nb_def len_def)
  have pad: "\<not> test_bit (bits v) p" if "len \<le> p" "p < nb * 64" for p
    using inv that by (simp add: invariant_def zero_padded_def nb_def len_def)
  have cover: "len \<le> nb * 64" unfolding nb by (rule block_cover)
  have len_lt: "len < 2 ^ 64" using unsigned_less [of "num_bits v"] by (simp add: len_def)
  have bound: "nb * 64 \<le> 2 ^ 64" unfolding nb using len_lt by (rule blocks_bound)
  obtain bi t where I: "I = bi * 64 + t" "t < 64" "I div 64 = bi" "I mod 64 = t"
    by (rule pos_split)
  have ubi: "unat (block_index i) = bi"
    using I(3) by (simp add: block_index_def bits_per_block_def unat_div I_def)
  have ut: "unat (bit_index i) = t"
    using I(4) by (simp add: bit_index_def bits_per_block_def unat_mod I_def)
  have "(of_nat (unat (block_index i)) :: 64 word) = block_index i" by simp
  then have wbi: "block_index i = of_nat bi" using ubi by simp
  have bi_lt: "bi < nb" using False cover I by simp
  define block where "block = (bits v ! bi) AND NOT (mask (t + 1))"
  have bb: "bit block s \<longleftrightarrow> bit (bits v ! bi) s \<and> t < s" for s
    using bit_imp_le_length [of "bits v ! bi" s]
    by (auto simp: block_def bit_and_iff bit_not_iff bit_mask_iff)
  have fn: "find_next v i =
      (if block \<noteq> 0 then block_index i * bits_per_block + lowest_bit block
       else find_from v (block_index i + 1))"
    using False by (simp add: find_next_def Let_def ubi ut block_def len_def I_def)
  show ?thesis
  proof (cases "block = 0")
    case nz: False
    note l = lowest_bit_props [OF nz]
    define m where "m = length (takeWhile (\<lambda>j. \<not> bit block j) [0..<64])"
    have m: "m < 64" "bit block m" "\<And>j. j < m \<Longrightarrow> \<not> bit block j"
      "lowest_bit block = of_nat m"
      unfolding m_def using l by blast+
    define r where "r = bi * 64 + m"
    have tm: "t < m" using m(2) bb by simp
    have "find_next v i = of_nat r"
      using nz by (simp add: fn wbi m(4) word_of_pos r_def)
    moreover have "I < r" using tm I(1) by (simp add: r_def)
    moreover have tr: "test_bit (bits v) r"
      using m(1,2) bb by (simp add: r_def test_bit_pos)
    moreover have "r < len"
    proof (rule ccontr)
      assume "\<not> r < len"
      moreover have "r < nb * 64" using bi_lt m(1) by (simp add: r_def)
      ultimately have "\<not> test_bit (bits v) r" using pad by simp
      then show False using tr by simp
    qed
    moreover have "\<not> test_bit (bits v) j" if "I < j \<and> j < r" for j
    proof -
      obtain q s where j: "j = q * 64 + s" "s < 64" by (rule pos_split)
      have "q = bi" using that j I(1,2) m(1) by (simp add: r_def)
      moreover have "t < s" "s < m" using that j I(1) calculation by (simp_all add: r_def)
      ultimately show ?thesis using m(3) [of s] bb [of s] j by (simp add: test_bit_pos)
    qed
    ultimately show ?thesis by blast
  next
    case z: True
    have rest: "\<not> test_bit (bits v) j" if "I < j" "j < (bi + 1) * 64" for j
    proof -
      obtain q s where j: "j = q * 64 + s" "s < 64" by (rule pos_split)
      have q: "q = bi" using that j I(1,2) by simp
      then have "t < s" using that j I(1) by simp
      moreover have "\<not> bit block s" using z by simp
      ultimately show ?thesis using bb [of s] j q by (simp add: test_bit_pos)
    qed
    have "unat (block_index i) + unat (1 :: 64 word) < 2 ^ 64"
      using ubi bi_lt bound by simp
    then have "unat (block_index i + 1) = unat (block_index i) + unat (1 :: 64 word)"
      by (simp only: unat_add64 if_True)
    then have u1: "unat (block_index i + 1) = bi + 1" using ubi by simp
    have ff: "find_from v (block_index i + 1) =
        (case find (\<lambda>k. bits v ! k \<noteq> 0) [bi + 1 ..< length (bits v)] of
           None \<Rightarrow> npos
         | Some k \<Rightarrow> of_nat k * bits_per_block + lowest_bit (bits v ! k))"
      by (simp add: find_from_def u1)
    show ?thesis
    proof (cases "find (\<lambda>k. bits v ! k \<noteq> 0) [bi + 1 ..< length (bits v)]")
      case None
      have "find_next v i = npos" using z None by (simp add: fn ff)
      moreover have "\<not> test_bit (bits v) j" if "I < j \<and> j < len" for j
      proof (cases "j < (bi + 1) * 64")
        case True
        then show ?thesis using that rest by simp
      next
        case False
        then have "(bi + 1) * 64 \<le> j" by simp
        moreover have "j < length (bits v) * 64" using that cover by (simp add: nb_def)
        ultimately show ?thesis using scan_None [OF None] by blast
      qed
      ultimately show ?thesis by blast
    next
      case (Some k)
      note sc = scan_Some [OF Some]
      define m where "m = length (takeWhile (\<lambda>j. \<not> bit (bits v ! k) j) [0..<64])"
      have k: "bi + 1 \<le> k" "k < length (bits v)" and m: "m < 64"
        and tr: "test_bit (bits v) (k * 64 + m)"
        and lb: "lowest_bit (bits v ! k) = of_nat m"
        unfolding m_def by (rule sc)+
      have before: "\<not> test_bit (bits v) p" if "(bi + 1) * 64 \<le> p" "p < k * 64 + m" for p
        using sc(5) that unfolding m_def by blast
      define r where "r = k * 64 + m"
      have "find_next v i = of_nat r"
        using z Some by (simp add: fn ff lb word_of_pos r_def)
      moreover have "I < r"
      proof -
        have "I < (bi + 1) * 64" using I(1,2) by simp
        also have "\<dots> \<le> k * 64" using k(1) by simp
        finally show ?thesis by (simp add: r_def)
      qed
      moreover have "test_bit (bits v) r" using tr by (simp add: r_def)
      moreover have "r < len"
      proof (rule ccontr)
        assume "\<not> r < len"
        moreover have "r < nb * 64" using k(2) m by (simp add: r_def nb_def)
        ultimately have "\<not> test_bit (bits v) r" using pad by simp
        then show False using tr by (simp add: r_def)
      qed
      moreover have "\<not> test_bit (bits v) j" if "I < j \<and> j < r" for j
      proof (cases "j < (bi + 1) * 64")
        case True
        then show ?thesis using that rest by simp
      next
        case False
        then show ?thesis using that before [of j] by (simp add: r_def)
      qed
      ultimately show ?thesis by blast
    qed
  qed
qed

section \<open>Checked claims\<close>

text \<open>
  C7. For every number of bits \<open>n\<close>, \<open>bits_to_blocks n\<close> is the ceiling of \<open>n\<close> divided by
  \<open>bits_per_block\<close>: the quotient, rounded up to the next integer when \<open>n\<close> is not a
  multiple of \<open>bits_per_block\<close>. The result is read as a natural number, so the statement
  also says that the source's word addition of the rounding bit never wraps.
\<close>

theorem bits_to_blocks_ceiling:
  "int (unat (bits_to_blocks n)) = \<lceil>real (unat n) / real (unat bits_per_block)\<rceil>"
  using ceiling_div_64 [of "unat n"]
  by (simp add: unat_bits_to_blocks bits_per_block_def)

text \<open>
  C10. For every \<open>lim\<close>, \<open>depth\<close> and \<open>len\<close>, with \<open>r\<close> the value returned by
  \<open>check_limit_exceeded\<close> and \<open>n\<close> the value it stores into \<open>*n\<close>: \<open>n\<close> is at most
  \<open>len\<close>; when \<open>lim = 0\<close> it stores \<open>len\<close> and returns false; when \<open>lim \<noteq> 0\<close> and
  \<open>depth \<le> lim\<close> the stored value satisfies \<open>depth + n \<le> lim\<close>; and it returns true
  exactly when \<open>lim \<noteq> 0\<close> and either \<open>depth \<ge> lim\<close> or \<open>depth + len > lim\<close>. The sums
  are the \<open>uint64_t\<close> sums the source computes. The last conjunct adds the reading over
  the unbounded naturals: whenever \<open>depth + len\<close> fits into 64 bits, the same bound and
  the same equivalence hold for the numbers themselves.
\<close>

theorem check_limit_exceeded_result:
  "check_limit_exceeded limit depth len = (r, n) \<Longrightarrow>
     n \<le> len \<and>
     (limit = 0 \<longrightarrow> n = len \<and> \<not> r) \<and>
     (limit \<noteq> 0 \<and> depth \<le> limit \<longrightarrow> depth + n \<le> limit) \<and>
     (r \<longleftrightarrow> limit \<noteq> 0 \<and> (depth \<ge> limit \<or> depth + len > limit)) \<and>
     (unat depth + unat len < 2 ^ 64 \<longrightarrow>
        (limit \<noteq> 0 \<and> depth \<le> limit \<longrightarrow> unat depth + unat n \<le> unat limit) \<and>
        (r \<longleftrightarrow> limit \<noteq> 0 \<and>
           (unat depth \<ge> unat limit \<or> unat depth + unat len > unat limit)))"
proof (intro conjI impI)
  assume a: "check_limit_exceeded limit depth len = (r, n)"
  show "n \<le> len" using a by (rule cle_stored_le)
  show "n = len" if "limit = 0" using a that by (simp add: cle_unlimited)
  show "\<not> r" if "limit = 0" using a that by (simp add: cle_unlimited)
  show "depth + n \<le> limit" if "limit \<noteq> 0 \<and> depth \<le> limit"
    using cle_within [OF a] that by simp
  show "r \<longleftrightarrow> limit \<noteq> 0 \<and> (depth \<ge> limit \<or> depth + len > limit)"
    using a by (rule cle_returns)
  show "unat depth + unat n \<le> unat limit"
    if "unat depth + unat len < 2 ^ 64" "limit \<noteq> 0 \<and> depth \<le> limit"
    using cle_nat(1) [OF a that(1)] that(2) by simp
  show "r \<longleftrightarrow> limit \<noteq> 0 \<and>
           (unat depth \<ge> unat limit \<or> unat depth + unat len > unat limit)"
    if "unat depth + unat len < 2 ^ 64"
    using cle_nat(2) [OF a that] .
qed

theorem check_limit_exceeded_result_witness:
  "check_limit_exceeded 10 4 20 = (True, 6) \<and> (6 :: 64 word) \<le> 20 \<and>
   (10 :: 64 word) \<noteq> 0 \<and> (4 :: 64 word) \<le> 10 \<and> (4 :: 64 word) + 6 \<le> 10 \<and>
   unat (4 :: 64 word) + unat (20 :: 64 word) < 2 ^ 64 \<and>
   unat (4 :: 64 word) + unat (6 :: 64 word) \<le> unat (10 :: 64 word) \<and>
   check_limit_exceeded 0 4 20 = (False, 20)"
proof -
  have a: "check_limit_exceeded 10 4 20 = (True, 6)"
    by (simp add: check_limit_exceeded_def)
  have b: "check_limit_exceeded 0 4 20 = (False, 20)"
    by (simp add: check_limit_exceeded_def)
  show ?thesis
    using check_limit_exceeded_result [OF a] check_limit_exceeded_result [OF b] a b
    by simp
qed

text \<open>
  C8. For every bit vector \<open>v\<close> with \<open>extra_bits v = 0\<close>, which includes the empty
  default-constructed vector, and every nonempty block range, \<open>append(first, last)\<close> runs
  the branch that reads \<open>bits_.back()\<close> and right-shifts each incoming block by
  \<open>bits_per_block - excess\<close>, which is the full block width, a count C++ leaves
  undefined. On a vector without blocks the \<open>back()\<close> access has no element to read, so
  the error outcome is reached there; with blocks present the call ends at the first
  full-width shift.
\<close>

theorem append_zero_excess_branch:
  "extra_bits v = 0 \<Longrightarrow>
     append_range v (x # rest) =
       (case append_merge (bits v) (extra_bits v) x rest of
          Inl e \<Rightarrow> Inl e
        | Inr bs \<Rightarrow>
            Inr \<lparr>bits = bs,
                 num_bits = num_bits v + bits_per_block * of_nat (length (x # rest))\<rparr>) \<and>
     unat (bits_per_block - extra_bits v) = LENGTH(64) \<and>
     (\<forall>y. shr y (bits_per_block - extra_bits v) = Inl ShiftCountOutOfRange) \<and>
     (bits v = [] \<longrightarrow> append_range v (x # rest) = Inl BackOfEmptyVector) \<and>
     (bits v \<noteq> [] \<longrightarrow> append_range v (x # rest) = Inl ShiftCountOutOfRange) \<and>
     extra_bits BitVector_default = 0 \<and>
     append_range BitVector_default (x # rest) = Inl BackOfEmptyVector"
proof (intro conjI allI impI)
  assume z: "extra_bits v = 0"
  have ne: "x # rest \<noteq> []" by simp
  show "append_range v (x # rest) =
       (case append_merge (bits v) (extra_bits v) x rest of
          Inl e \<Rightarrow> Inl e
        | Inr bs \<Rightarrow>
            Inr \<lparr>bits = bs,
                 num_bits = num_bits v + bits_per_block * of_nat (length (x # rest))\<rparr>)"
    using z by (simp only: append_nonempty refl if_True)
  show "unat (bits_per_block - extra_bits v) = LENGTH(64)"
    using z by (simp add: bits_per_block_def)
  show "shr y (bits_per_block - extra_bits v) = Inl ShiftCountOutOfRange" for y
    using z by (simp add: shr_full)
  show "append_range v (x # rest) = Inl BackOfEmptyVector" if "bits v = []"
    using append_zero_excess_error [OF z ne] that by simp
  show "append_range v (x # rest) = Inl ShiftCountOutOfRange" if "bits v \<noteq> []"
    using append_zero_excess_error [OF z ne] that by simp
  show "extra_bits BitVector_default = 0" by (rule extra_bits_default)
  show "append_range BitVector_default (x # rest) = Inl BackOfEmptyVector"
    using append_zero_excess_error [OF extra_bits_default ne]
    by (simp add: BitVector_default_def)
qed

theorem append_zero_excess_branch_witness:
  "extra_bits BitVector_default = 0 \<and>
   bits BitVector_default = [] \<and>
   append_range BitVector_default [1] = Inl BackOfEmptyVector \<and>
   append_merge [] 0 1 [] = Inl BackOfEmptyVector \<and>
   unat (bits_per_block - extra_bits BitVector_default) = 64"
proof -
  have z: "extra_bits BitVector_default = 0" by (rule extra_bits_default)
  have b: "bits BitVector_default = []" by (simp add: BitVector_default_def)
  have a: "append_range BitVector_default [1] = Inl BackOfEmptyVector"
    using append_zero_excess_branch [OF z, of 1 "[]"] b by blast
  show ?thesis
    using a z b by (simp add: bits_per_block_def append_merge_aligned)
qed

text \<open>
  C9. For every bit vector and every block range, \<open>append(first, last)\<close> increases the
  logical length by exactly \<open>bits_per_block\<close> times the number of blocks in the range (in
  \<open>size_type\<close> arithmetic), a multiple of \<open>bits_per_block\<close>; consequently \<open>extra_bits\<close>
  has the same value after the call as before it, whatever the blocks then are. This
  holds for every call, with zero excess or not; where the call yields a vector, that
  vector has this length and the old excess.
\<close>

theorem append_num_bits:
  "snd (append_fields v xs) = num_bits v + bits_per_block * of_nat (length xs) \<and>
   (bits_per_block * of_nat (length xs)) mod bits_per_block = 0 \<and>
   (\<forall>bs. extra_bits \<lparr>bits = bs, num_bits = snd (append_fields v xs)\<rparr> = extra_bits v) \<and>
   (case append_range v xs of
      Inr v' \<Rightarrow>
        fst (append_fields v xs) = Inr (bits v') \<and>
        num_bits v' = snd (append_fields v xs) \<and>
        num_bits v' = num_bits v + bits_per_block * of_nat (length xs) \<and>
        extra_bits v' = extra_bits v
    | Inl e \<Rightarrow> fst (append_fields v xs) = Inl e \<and> xs \<noteq> [] \<and> extra_bits v = 0)"
proof (intro conjI allI)
  show len: "snd (append_fields v xs) = num_bits v + bits_per_block * of_nat (length xs)"
    by (rule append_fields_length)
  show "(bits_per_block * of_nat (length xs)) mod bits_per_block = 0"
    by (rule mult64_mod)
  show ex: "extra_bits \<lparr>bits = bs, num_bits = snd (append_fields v xs)\<rparr> = extra_bits v" for bs
    unfolding len by (rule extra_bits_append)
  show "case append_range v xs of
      Inr v' \<Rightarrow>
        fst (append_fields v xs) = Inr (bits v') \<and>
        num_bits v' = snd (append_fields v xs) \<and>
        num_bits v' = num_bits v + bits_per_block * of_nat (length xs) \<and>
        extra_bits v' = extra_bits v
    | Inl e \<Rightarrow> fst (append_fields v xs) = Inl e \<and> xs \<noteq> [] \<and> extra_bits v = 0"
  proof (cases "fst (append_fields v xs)")
    case (Inl e)
    then have r: "append_range v xs = Inl e" by (simp add: append_range_fields)
    have "xs \<noteq> [] \<and> extra_bits v = 0"
    proof (cases xs)
      case Nil
      then show ?thesis using Inl by (simp add: append_fields_def)
    next
      case (Cons x rest)
      then show ?thesis using Inl by (auto simp: append_fields_def Let_def split: if_splits)
    qed
    then show ?thesis using r Inl by simp
  next
    case (Inr bs)
    then have r: "append_range v xs = Inr \<lparr>bits = bs, num_bits = snd (append_fields v xs)\<rparr>"
      by (simp add: append_range_fields)
    show ?thesis using Inr ex [of bs] len by (simp add: r)
  qed
qed

theorem append_num_bits_witness:
  "snd (append_fields BitVector_default [1]) = 64 \<and>
   fst (append_fields BitVector_default [1]) = Inl BackOfEmptyVector \<and>
   extra_bits BitVector_default = 0 \<and>
   extra_bits \<lparr>bits = [], num_bits = snd (append_fields BitVector_default [1])\<rparr> = 0 \<and>
   snd (append_fields \<lparr>bits = [1], num_bits = 64\<rparr> [2, 3]) = 192 \<and>
   append_range \<lparr>bits = [1], num_bits = 1\<rparr> [5, 0] = Inr \<lparr>bits = [1, 5, 0], num_bits = 129\<rparr> \<and>
   snd (append_fields \<lparr>bits = [1], num_bits = 1\<rparr> [5, 0]) = 129 \<and>
   extra_bits \<lparr>bits = [1, 5, 0], num_bits = 129\<rparr> = 63 \<and>
   extra_bits \<lparr>bits = [1], num_bits = 1\<rparr> = 63"
proof -
  note d = append_num_bits [where v = BitVector_default and xs = "[1]"]
  note z = append_num_bits [where v = "\<lparr>bits = [1], num_bits = 64\<rparr>" and xs = "[2, 3]"]
  note n = append_num_bits [where v = "\<lparr>bits = [1], num_bits = 1\<rparr>" and xs = "[5, 0]"]
  have e0: "extra_bits BitVector_default = 0" by (rule extra_bits_default)
  have e: "extra_bits \<lparr>bits = [1], num_bits = 1\<rparr> = 63"
    by (simp add: extra_bits_def bits_per_block_def)
  have a: "append_range \<lparr>bits = [1], num_bits = 1\<rparr> [5, 0] = Inr \<lparr>bits = [1, 5, 0], num_bits = 129\<rparr>"
    by (simp add: append_nonzero_excess e bits_per_block_def)
  have f: "fst (append_fields BitVector_default [1]) = Inl BackOfEmptyVector"
    using e0 by (simp add: append_fields_def Let_def append_merge_aligned BitVector_default_def)
  have d1: "snd (append_fields BitVector_default [1]) = 64"
    using d by (simp add: BitVector_default_def bits_per_block_def)
  have "\<forall>bs. extra_bits \<lparr>bits = bs, num_bits = snd (append_fields BitVector_default [1])\<rparr>
          = extra_bits BitVector_default"
    using d by blast
  then have d2: "extra_bits \<lparr>bits = [], num_bits = snd (append_fields BitVector_default [1])\<rparr> = 0"
    using e0 by simp
  have z1: "snd (append_fields \<lparr>bits = [1], num_bits = 64\<rparr> [2, 3]) = 192"
    using z by (simp add: bits_per_block_def)
  have n1: "snd (append_fields \<lparr>bits = [1], num_bits = 1\<rparr> [5, 0]) = 129"
    using n by (simp add: bits_per_block_def)
  have "case append_range \<lparr>bits = [1], num_bits = 1\<rparr> [5, 0] of
          Inr v' \<Rightarrow> extra_bits v' = extra_bits \<lparr>bits = [1], num_bits = 1\<rparr>
        | Inl e \<Rightarrow> True"
    using n by (auto split: sum.splits)
  then have n2: "extra_bits \<lparr>bits = [1, 5, 0], num_bits = 129\<rparr> = 63"
    using e by (simp add: a)
  show ?thesis using d1 f e0 d2 z1 a n1 n2 e by simp
qed

text \<open>
  C1 asks for the direct append of the blocks when the excess is zero and for the
  shifted merge otherwise, so that the appended bits follow the old ones in order. The
  source tests \<open>excess == 0\<close> the other way round. On the one-block vector of length 64
  (excess 0), appending the block 2 runs the merge branch, which ORs into
  \<open>bits_.back()\<close> and then shifts by the full block width: the vector with the blocks
  \<open>[1, 2]\<close> that a direct append gives does not result. On the one-block vector of
  length 1 (excess 63), appending the block 5 inserts it unshifted as a second block:
  the last block is left as it was, and the first appended bit, bit 0 of the block 5,
  which is 1, does not arrive at position 1, the first position after the old length.
\<close>

theorem append_swaps_branches:
  "extra_bits \<lparr>bits = [1], num_bits = 64\<rparr> = 0 \<and>
   append_range \<lparr>bits = [1], num_bits = 64\<rparr> [2] = Inl ShiftCountOutOfRange \<and>
   append_range \<lparr>bits = [1], num_bits = 64\<rparr> [2] \<noteq> Inr \<lparr>bits = [1, 2], num_bits = 128\<rparr> \<and>
   append_merge [1] 0 2 [] = Inl ShiftCountOutOfRange \<and>
   extra_bits \<lparr>bits = [1], num_bits = 1\<rparr> = 63 \<and>
   append_range \<lparr>bits = [1], num_bits = 1\<rparr> [5] = Inr \<lparr>bits = [1, 5], num_bits = 65\<rparr> \<and>
   append_insert [1] [5] = [1, 5] \<and>
   bit (5 :: block_type) 0 \<and> \<not> test_bit [1, 5] 1"
proof -
  have e0: "extra_bits \<lparr>bits = [1], num_bits = 64\<rparr> = 0"
    by (simp add: extra_bits_def bits_per_block_def)
  have e1: "extra_bits \<lparr>bits = [1], num_bits = 1\<rparr> = 63"
    by (simp add: extra_bits_def bits_per_block_def)
  have "append_range \<lparr>bits = [1], num_bits = 64\<rparr> [2] = Inl ShiftCountOutOfRange"
    using append_zero_excess_error [OF e0, of "[2]"] by simp
  moreover have "append_range \<lparr>bits = [1], num_bits = 1\<rparr> [5] = Inr \<lparr>bits = [1, 5], num_bits = 65\<rparr>"
    by (simp add: append_nonzero_excess e1 bits_per_block_def)
  moreover have "append_merge [1] 0 2 [] = Inl ShiftCountOutOfRange"
    by (simp add: append_merge_aligned)
  moreover have "\<not> test_bit [1, 5] 1" by (simp add: test_bit_def)
  ultimately show ?thesis using e0 e1 by (simp add: append_insert_def)
qed

text \<open>
  C2 asks that every public mutating operation leaves a state with
  \<open>blocks.size() = bits_to_blocks(length)\<close> and with all excess bits of the final block 0.
  The one-block vector of length 1 with bit 0 set satisfies both. Appending the block 5
  to it gives the blocks \<open>[1, 5]\<close> with length 65: the block count is right, but bit 66,
  beyond the length, is 1.
\<close>

theorem append_breaks_zero_padding:
  "invariant \<lparr>bits = [1], num_bits = 1\<rparr> \<and>
   append_range \<lparr>bits = [1], num_bits = 1\<rparr> [5] = Inr \<lparr>bits = [1, 5], num_bits = 65\<rparr> \<and>
   block_count_ok \<lparr>bits = [1, 5], num_bits = 65\<rparr> \<and>
   test_bit [1, 5] 66 \<and>
   \<not> zero_padded \<lparr>bits = [1, 5], num_bits = 65\<rparr> \<and>
   \<not> invariant \<lparr>bits = [1, 5], num_bits = 65\<rparr>"
proof -
  have e1: "extra_bits \<lparr>bits = [1], num_bits = 1\<rparr> \<noteq> 0"
    by (simp add: extra_bits_def bits_per_block_def)
  have a: "append_range \<lparr>bits = [1], num_bits = 1\<rparr> [5] = Inr \<lparr>bits = [1, 5], num_bits = 65\<rparr>"
    by (simp add: append_nonzero_excess e1 bits_per_block_def)
  have "(66::nat) \<in> set [65 ..< 128]" by simp
  then have nz: "\<not> zero_padded \<lparr>bits = [1, 5], num_bits = 65\<rparr>"
    using test_bit_66 unfolding zero_padded_def by (simp only: BitVector.simps) auto
  show ?thesis
    using a nz zero_padded_1 block_count_1 block_count_65 test_bit_66
    by (simp add: invariant_def)
qed

theorem append_breaks_zero_padding_witness:
  "\<exists>v v'. invariant v \<and> append_range v [5] = Inr v' \<and> \<not> invariant v'"
  using append_breaks_zero_padding by blast

text \<open>
  C5. For every bit vector \<open>v\<close> and every shift amount \<open>n \<ge> length\<close>, both \<open>v << n\<close> and
  \<open>v >> n\<close> are the all-zero vector of the same length: every block is 0 and the length
  is unchanged. In particular \<open>v << length\<close> and \<open>v >> length\<close> are that vector.
\<close>

theorem shift_beyond_length:
  "num_bits v \<le> n \<Longrightarrow>
     shift_left v n = \<lparr>bits = replicate (length (bits v)) 0, num_bits = num_bits v\<rparr> \<and>
     shift_right v n = \<lparr>bits = replicate (length (bits v)) 0, num_bits = num_bits v\<rparr> \<and>
     shift_left v (num_bits v) = shift_right v (num_bits v) \<and>
     num_bits (shift_left v n) = num_bits v \<and> num_bits (shift_right v n) = num_bits v \<and>
     (\<forall>i < length (bits v) * 64.
        \<not> test_bit (bits (shift_left v n)) i \<and> \<not> test_bit (bits (shift_right v n)) i)"
proof -
  assume "num_bits v \<le> n"
  then have le: "unat (num_bits v) \<le> unat n" by (simp add: word_le_nat_alt)
  have l: "shift_left v n = \<lparr>bits = replicate (length (bits v)) 0, num_bits = num_bits v\<rparr>"
    using le by (rule shift_left_beyond)
  have r: "shift_right v n = \<lparr>bits = replicate (length (bits v)) 0, num_bits = num_bits v\<rparr>"
    using le by (rule shift_right_beyond)
  have s: "shift_left v (num_bits v) = shift_right v (num_bits v)"
    by (simp add: shift_left_beyond shift_right_beyond)
  show ?thesis
    using s by (simp add: l r test_bit_replicate_0)
qed

theorem shift_beyond_length_witness:
  "(70 :: size_type) \<le> 70 \<and>
   shift_left \<lparr>bits = [136, 7], num_bits = 70\<rparr> 70 = \<lparr>bits = [0, 0], num_bits = 70\<rparr> \<and>
   shift_right \<lparr>bits = [136, 7], num_bits = 70\<rparr> 70 = \<lparr>bits = [0, 0], num_bits = 70\<rparr>"
  using shift_beyond_length [of "\<lparr>bits = [136, 7], num_bits = 70\<rparr>" 70]
  by (simp add: numeral_2_eq_2)

text \<open>
  C3. For every bit vector \<open>v\<close> (the two invariants of the data model hold for it),
  deserializing the result of serializing \<open>v\<close> succeeds and yields \<open>v\<close> itself, the same
  length and the same block sequence. The witness covers the empty vector, a single-bit
  vector and a vector of two blocks.
\<close>

theorem serialize_roundtrip:
  "invariant v \<Longrightarrow> Unserialize (Serialize v) = Some v"
proof -
  assume inv: "invariant v"
  then have "length (bits v) = unat (bits_to_blocks (num_bits v))"
    by (simp add: invariant_def block_count_ok_def)
  then have "Unserialize (Serialize v) = Some (zero_unused_bits \<lparr>bits = bits v, num_bits = num_bits v\<rparr>)"
    by (simp add: Unserialize_def Serialize_def)
  moreover have "\<lparr>bits = bits v, num_bits = num_bits v\<rparr> = v" by (cases v) simp
  ultimately show ?thesis using zero_unused_bits_id [OF inv] by simp
qed

theorem serialize_roundtrip_witness:
  "invariant \<lparr>bits = [], num_bits = 0\<rparr> \<and>
   Unserialize (Serialize \<lparr>bits = [], num_bits = 0\<rparr>) = Some \<lparr>bits = [], num_bits = 0\<rparr> \<and>
   invariant \<lparr>bits = [1], num_bits = 1\<rparr> \<and>
   Unserialize (Serialize \<lparr>bits = [1], num_bits = 1\<rparr>) = Some \<lparr>bits = [1], num_bits = 1\<rparr> \<and>
   invariant \<lparr>bits = [136, 7], num_bits = 70\<rparr> \<and>
   Unserialize (Serialize \<lparr>bits = [136, 7], num_bits = 70\<rparr>) =
     Some \<lparr>bits = [136, 7], num_bits = 70\<rparr>"
proof -
  have i0: "invariant \<lparr>bits = [], num_bits = 0\<rparr>"
    by (simp add: invariant_def block_count_ok_def zero_padded_def unat_bits_to_blocks)
  have i1: "invariant \<lparr>bits = [1], num_bits = 1\<rparr>"
    using zero_padded_1 block_count_1 by (simp add: invariant_def)
  have "\<not> test_bit [136, 7] p" if "70 \<le> p" "p < 128" for p
  proof -
    have d: "p div 64 = 1" using that by simp
    have "6 \<le> p mod 64" using that d by (simp add: modulo_nat_def)
    then have "\<not> bit (7 :: 64 word) (p mod 64)"
      using bit_keep_used_mask [of "7" 61 "p mod 64"] by (simp add: mask_eq_exp_minus_1)
    then show ?thesis by (simp add: test_bit_def d)
  qed
  then have i2: "invariant \<lparr>bits = [136, 7], num_bits = 70\<rparr>"
    by (simp add: invariant_def block_count_ok_def zero_padded_def unat_bits_to_blocks)
  show ?thesis
    using serialize_roundtrip [OF i0] serialize_roundtrip [OF i1] serialize_roundtrip [OF i2]
      i0 i1 i2 by simp
qed

text \<open>
  C4. \<open>Unserialize\<close> fails on an empty stream, whenever the number of blocks provided
  differs from the one the declared length needs, and on every proper prefix of the
  serialization of a vector (a truncated stream). The failure is the no-value outcome,
  and whatever vector \<open>Unserialize\<close> returns satisfies the block-count and the
  zero-padding invariant.
\<close>

theorem unserialize_failure:
  "Unserialize [] = None \<and>
   (length blocks \<noteq> unat (bits_to_blocks len) \<longrightarrow> Unserialize (len # blocks) = None) \<and>
   (invariant v \<and> k < length (Serialize v) \<longrightarrow> Unserialize (take k (Serialize v)) = None) \<and>
   (\<forall>v'. Unserialize stream = Some v' \<longrightarrow> invariant v')"
proof (intro conjI impI allI)
  show "Unserialize [] = None" by (simp add: Unserialize_def)
  show "Unserialize (len # blocks) = None" if "length blocks \<noteq> unat (bits_to_blocks len)"
    using that by (simp add: Unserialize_def)
  show "Unserialize (take k (Serialize v)) = None"
    if "invariant v \<and> k < length (Serialize v)"
  proof (cases k)
    case 0
    then show ?thesis by (simp add: Unserialize_def)
  next
    case (Suc m)
    have "length (bits v) = unat (bits_to_blocks (num_bits v))"
      using that by (simp add: invariant_def block_count_ok_def)
    moreover have "m < length (bits v)" using that Suc by (simp add: Serialize_def)
    ultimately show ?thesis using Suc by (simp add: Unserialize_def Serialize_def)
  qed
  show "invariant v'" if "Unserialize stream = Some v'" for v'
  proof (cases stream)
    case Nil
    then show ?thesis using that by (simp add: Unserialize_def)
  next
    case (Cons len' blocks')
    then have c: "length blocks' = unat (bits_to_blocks len')"
      and v': "v' = zero_unused_bits \<lparr>bits = blocks', num_bits = len'\<rparr>"
      using that by (auto simp: Unserialize_def split: if_splits)
    have "block_count_ok \<lparr>bits = blocks', num_bits = len'\<rparr>"
      using c by (simp add: block_count_ok_def)
    then show ?thesis unfolding v' by (rule zero_unused_bits_invariant)
  qed
qed

theorem unserialize_failure_witness:
  "length [136 :: 64 word, 7] \<noteq> unat (bits_to_blocks 200) \<and>
   Unserialize [200, 136, 7] = None \<and>
   invariant \<lparr>bits = [1], num_bits = 1\<rparr> \<and> 1 < length (Serialize \<lparr>bits = [1], num_bits = 1\<rparr>) \<and>
   Unserialize (take 1 (Serialize \<lparr>bits = [1], num_bits = 1\<rparr>)) = None \<and>
   Unserialize [70, 136, 255] = Some \<lparr>bits = [136, 63], num_bits = 70\<rparr> \<and>
   invariant \<lparr>bits = [136, 63], num_bits = 70\<rparr>"
proof -
  have c: "length [136 :: 64 word, 7] \<noteq> unat (bits_to_blocks 200)"
    by (simp add: unat_bits_to_blocks)
  have i1: "invariant \<lparr>bits = [1], num_bits = 1\<rparr>"
    using zero_padded_1 block_count_1 by (simp add: invariant_def)
  have l: "1 < length (Serialize \<lparr>bits = [1], num_bits = 1\<rparr>)"
    by (simp add: Serialize_def)
  have e: "extra_bits \<lparr>bits = [136, 255], num_bits = 70\<rparr> = 58"
    by (simp add: extra_bits_def bits_per_block_def)
  have m: "(255 :: 64 word) AND mask 6 = 63"
    by (simp add: mask_eq_exp_minus_1)
  have u: "Unserialize [70, 136, 255] = Some \<lparr>bits = [136, 63], num_bits = 70\<rparr>"
    by (simp add: Unserialize_def unat_bits_to_blocks zero_unused_bits_def e m)
  note f = unserialize_failure [where blocks = "[136, 7]" and len = 200
      and v = "\<lparr>bits = [1], num_bits = 1\<rparr>" and k = 1 and stream = "[70, 136, 255]"]
  have "Unserialize [200, 136, 7] = None" using f c by blast
  moreover have "Unserialize (take 1 (Serialize \<lparr>bits = [1], num_bits = 1\<rparr>)) = None"
    using f i1 l by blast
  moreover have "invariant \<lparr>bits = [136, 63], num_bits = 70\<rparr>"
    using f u by blast
  ultimately show ?thesis using c i1 l u by simp
qed

text \<open>
  C6. For every bit vector (the two invariants of the data model hold for it) and every
  index \<open>i\<close>, \<open>find_next i\<close> is the lowest index strictly greater than \<open>i\<close> at which the
  bit is 1: that index lies inside the vector, its bit is set, and no bit strictly
  between \<open>i\<close> and it is set; when no bit after \<open>i\<close> is set inside the vector the result
  is \<open>npos\<close>. Whenever no position of the vector lies after \<open>i\<close>, as for
  \<open>i = length - 1\<close> and for \<open>i\<close> up to the largest index value, the result is \<open>npos\<close>,
  for every vector.
\<close>

theorem find_next_lowest_set_bit:
  "invariant v \<Longrightarrow>
     (if find_next v i = npos
      then \<forall>j. unat i < j \<and> j < unat (num_bits v) \<longrightarrow> \<not> test_bit (bits v) j
      else unat i < unat (find_next v i) \<and> unat (find_next v i) < unat (num_bits v) \<and>
           test_bit (bits v) (unat (find_next v i)) \<and>
           (\<forall>j. unat i < j \<and> j < unat (find_next v i) \<longrightarrow> \<not> test_bit (bits v) j)) \<and>
     (unat (num_bits v) \<le> unat i + 1 \<longrightarrow> find_next v i = npos)"
proof
  assume inv: "invariant v"
  show "if find_next v i = npos
      then \<forall>j. unat i < j \<and> j < unat (num_bits v) \<longrightarrow> \<not> test_bit (bits v) j
      else unat i < unat (find_next v i) \<and> unat (find_next v i) < unat (num_bits v) \<and>
           test_bit (bits v) (unat (find_next v i)) \<and>
           (\<forall>j. unat i < j \<and> j < unat (find_next v i) \<longrightarrow> \<not> test_bit (bits v) j)"
    using find_next_core [OF inv, of i]
  proof (elim disjE conjE exE)
    assume "find_next v i = npos"
      "\<forall>j. unat i < j \<and> j < unat (num_bits v) \<longrightarrow> \<not> test_bit (bits v) j"
    then show ?thesis by simp
  next
    fix r
    assume r: "find_next v i = of_nat r" "unat i < r" "r < unat (num_bits v)"
      "test_bit (bits v) r" "\<forall>j. unat i < j \<and> j < r \<longrightarrow> \<not> test_bit (bits v) j"
    have lt: "unat (num_bits v) < 2 ^ 64" using unsigned_less [of "num_bits v"] by simp
    then have ur: "unat (find_next v i) = r"
      using r(1,3) by (simp add: unat_of_nat)
    then have "find_next v i \<noteq> npos" using r(3) lt unat_npos by auto
    then show ?thesis using r ur by simp
  qed
  show "unat (num_bits v) \<le> unat i + 1 \<longrightarrow> find_next v i = npos"
    by (simp add: find_next_def)
qed

theorem find_next_lowest_set_bit_witness:
  "invariant \<lparr>bits = [136, 0, 4], num_bits = 140\<rparr> \<and>
   find_next \<lparr>bits = [136, 0, 4], num_bits = 140\<rparr> 3 = 7 \<and>
   find_next \<lparr>bits = [136, 0, 4], num_bits = 140\<rparr> 7 = 130 \<and>
   find_next \<lparr>bits = [136, 0, 4], num_bits = 140\<rparr> 130 = npos \<and>
   find_next \<lparr>bits = [136, 0, 4], num_bits = 140\<rparr> 139 = npos \<and>
   test_bit [136, 0, 4] 7 \<and> test_bit [136, 0, 4] 130 \<and>
   \<not> test_bit [136, 0, 4] 5 \<and> \<not> test_bit [136, 0, 4] 131"
proof -
  let ?v = "\<lparr>bits = [136, 0, 4], num_bits = 140\<rparr>"
  have inv: "invariant ?v" by code_simp
  have a: "find_next ?v 3 = 7" by code_simp
  have b: "find_next ?v 7 = 130" by code_simp
  have c: "find_next ?v 130 = npos" by code_simp
  have d: "find_next ?v 139 = npos" by code_simp
  have n: "(7 :: 64 word) \<noteq> npos" "(130 :: 64 word) \<noteq> npos" by (simp_all add: npos_def)
  have "test_bit (bits ?v) (unat (7 :: 64 word)) \<and>
        (\<forall>j. unat (3 :: 64 word) < j \<and> j < unat (7 :: 64 word) \<longrightarrow> \<not> test_bit (bits ?v) j)"
    using find_next_lowest_set_bit [OF inv, of 3] n by (simp add: a)
  then have t7: "test_bit [136, 0, 4] 7" and t5: "\<not> test_bit [136, 0, 4] 5" by simp_all
  have "test_bit (bits ?v) (unat (130 :: 64 word))"
    using find_next_lowest_set_bit [OF inv, of 7] n by (simp add: b)
  then have t130: "test_bit [136, 0, 4] 130" by simp
  have "\<forall>j. unat (130 :: 64 word) < j \<and> j < unat (num_bits ?v) \<longrightarrow> \<not> test_bit (bits ?v) j"
    using find_next_lowest_set_bit [OF inv, of 130] by (simp add: c)
  then have t131: "\<not> test_bit [136, 0, 4] 131" by simp
  show ?thesis using inv a b c d t7 t5 t130 t131 by simp
qed

end
